theory Spec2Isabelle
  imports Main "HOL-Library.Word"
begin

section \<open>Text primitives\<close>

text \<open>
  A document is a Python \<open>str\<close>. It is modelled as a \<open>string\<close> whose characters are read
  as code points below 256; the character classes below are the ones Python's \<open>re\<close> and
  \<open>str\<close> methods use on that range.
\<close>

abbreviation NL :: char where
  "NL \<equiv> CHR 0x0A"

text \<open>\<open>\s\<close> of \<open>re\<close>, and the characters \<open>str.strip()\<close> removes.\<close>

definition is_space :: "char \<Rightarrow> bool" where
  "is_space c =
     (let n = (of_char c :: nat)
      in (9 \<le> n \<and> n \<le> 13) \<or> (28 \<le> n \<and> n \<le> 32) \<or> n = 133 \<or> n = 160)"

text \<open>\<open>\w\<close> of \<open>re\<close>: alphanumeric characters and the underscore.\<close>

definition is_word :: "char \<Rightarrow> bool" where
  "is_word c =
     (let n = (of_char c :: nat)
      in (48 \<le> n \<and> n \<le> 57) \<or> (65 \<le> n \<and> n \<le> 90) \<or> n = 95 \<or> (97 \<le> n \<and> n \<le> 122)
         \<or> n = 170 \<or> n = 178 \<or> n = 179 \<or> n = 181 \<or> n = 185 \<or> n = 186
         \<or> (188 \<le> n \<and> n \<le> 190) \<or> (192 \<le> n \<and> n \<le> 214)
         \<or> (216 \<le> n \<and> n \<le> 246) \<or> (248 \<le> n \<and> n \<le> 255))"

text \<open>\<open>content.split('\n')\<close>: the empty text is one empty line.\<close>

fun split_nl :: "string \<Rightarrow> string list" where
  "split_nl [] = [[]]"
| "split_nl (c # cs) =
     (if c = NL then [] # split_nl cs
      else (case split_nl cs of [] \<Rightarrow> [[c]] | l # ls \<Rightarrow> (c # l) # ls))"

text \<open>\<open>'\n'.join(lines)\<close>.\<close>

fun join_nl :: "string list \<Rightarrow> string" where
  "join_nl [] = []"
| "join_nl [l] = l"
| "join_nl (l # m # ls) = l @ NL # join_nl (m # ls)"

definition startswith :: "string \<Rightarrow> string \<Rightarrow> bool" where
  "startswith p s = (take (length p) s = p)"

definition strip :: "string \<Rightarrow> string" where
  "strip s = rev (dropWhile is_space (rev (dropWhile is_space s)))"

section \<open>The code-block extractor\<close>

datatype error = TypeError

record code_block =
  language :: string
  code :: string
  line_number :: int

text \<open>
  The block being collected: the same dictionary in the source, whose \<open>'code'\<close> entry is a
  list of lines until the closing fence joins it.
\<close>

record open_block =
  ob_language :: string
  ob_code :: "string list"
  ob_line_number :: int

record cb_state =
  code_blocks :: "code_block list"
  in_code_block :: bool
  current_block :: "open_block option"
  start_line :: int

text \<open>\<open>re.compile(r'^```(\w*)').match(line)\<close>, giving \<open>group(1)\<close>.\<close>

definition code_fence_pattern :: "string \<Rightarrow> string option" where
  "code_fence_pattern line =
     (if startswith ''```'' line then Some (takeWhile is_word (drop 3 line)) else None)"

text \<open>
  One iteration of the loop. Subscripting \<open>current_block\<close> when it is \<open>None\<close> would raise
  \<open>TypeError\<close>.
\<close>

definition cb_step :: "int \<Rightarrow> string \<Rightarrow> cb_state \<Rightarrow> error + cb_state" where
  "cb_step i line st =
     (if \<not> in_code_block st then
        (case code_fence_pattern line of
           Some g \<Rightarrow>
             Inr (st\<lparr>in_code_block := True,
                     current_block :=
                       Some \<lparr>ob_language = g, ob_code = [], ob_line_number = i\<rparr>,
                     start_line := i\<rparr>)
         | None \<Rightarrow> Inr st)
      else if startswith ''```'' line then
        (case current_block st of
           None \<Rightarrow> Inl TypeError
         | Some b \<Rightarrow>
             Inr (st\<lparr>in_code_block := False,
                     code_blocks := code_blocks st @
                       [\<lparr>language = ob_language b, code = join_nl (ob_code b),
                         line_number = ob_line_number b\<rparr>],
                     current_block := None\<rparr>))
      else
        (case current_block st of
           None \<Rightarrow> Inl TypeError
         | Some b \<Rightarrow> Inr (st\<lparr>current_block := Some (b\<lparr>ob_code := ob_code b @ [line]\<rparr>)\<rparr>)))"

text \<open>\<open>for i, line in enumerate(lines, 1)\<close>.\<close>

fun cb_loop :: "int \<Rightarrow> string list \<Rightarrow> cb_state \<Rightarrow> error + cb_state" where
  "cb_loop i [] st = Inr st"
| "cb_loop i (line # lines) st =
     (case cb_step i line st of Inl e \<Rightarrow> Inl e | Inr st' \<Rightarrow> cb_loop (i + 1) lines st')"

definition cb_init :: cb_state where
  "cb_init = \<lparr>code_blocks = [], in_code_block = False, current_block = None, start_line = 0\<rparr>"

definition extract_code_blocks :: "string \<Rightarrow> error + code_block list" where
  "extract_code_blocks content =
     (case cb_loop 1 (split_nl content) cb_init of
        Inl e \<Rightarrow> Inl e
      | Inr st \<Rightarrow> Inr (code_blocks st))"

text \<open>
  Documents assembled from fenced blocks: the prose lines before a block, its opening fence
  line, its body lines and its closing fence line.
\<close>

type_synonym fenced = "string list \<times> string \<times> string list \<times> string"

definition plain_line :: "string \<Rightarrow> bool" where
  "plain_line l = (\<not> startswith ''```'' l \<and> NL \<notin> set l)"

definition fence_line :: "string \<Rightarrow> bool" where
  "fence_line l = (startswith ''```'' l \<and> NL \<notin> set l)"

fun fenced_lines :: "fenced \<Rightarrow> string list" where
  "fenced_lines (before, opener, body, closer) = before @ [opener] @ body @ [closer]"

fun well_formed :: "fenced \<Rightarrow> bool" where
  "well_formed (before, opener, body, closer) =
     (list_all plain_line before \<and> fence_line opener \<and> list_all plain_line body
      \<and> fence_line closer)"

fun fenced_body :: "fenced \<Rightarrow> string" where
  "fenced_body (before, opener, body, closer) = join_nl body"

text \<open>The records expected of such a document whose first line has number \<open>i\<close>.\<close>

fun expected_blocks :: "int \<Rightarrow> fenced list \<Rightarrow> code_block list" where
  "expected_blocks i [] = []"
| "expected_blocks i ((before, opener, body, closer) # fs) =
     \<lparr>language = takeWhile is_word (drop 3 opener), code = join_nl body,
      line_number = i + int (length before)\<rparr>
     # expected_blocks (i + int (length before) + int (length body) + 2) fs"

section \<open>The checklist extractor\<close>

record checklist =
  cl_section :: string
  cl_items :: "string list"
  cl_line_number :: int

record cl_state =
  checklists :: "checklist list"
  current_section :: string
  current_checklist :: "checklist option"

text \<open>
  \<open>\s*(.+)\<close> at the end of a pattern, with the backtracking of \<open>re\<close>: the longest run of
  whitespace that leaves a character other than the newline. The result is the text from
  where the group starts; the group itself runs to the end of the line.
\<close>

fun ws_then_rest :: "string \<Rightarrow> string option" where
  "ws_then_rest [] = None"
| "ws_then_rest (c # cs) =
     (if is_space c then
        (case ws_then_rest cs of
           Some r \<Rightarrow> Some r
         | None \<Rightarrow> if c = NL then None else Some (c # cs))
      else Some (c # cs))"

definition to_eol :: "string \<Rightarrow> string" where
  "to_eol s = takeWhile (\<lambda>c. c \<noteq> NL) s"

text \<open>\<open>re.compile(r'^#{1,6}\s+(.+)').match(line)\<close>, giving \<open>group(1)\<close>.\<close>

definition section_pattern :: "string \<Rightarrow> string option" where
  "section_pattern line =
     (let hashes = takeWhile (\<lambda>c. c = CHR ''#'') line
      in if 1 \<le> length hashes \<and> length hashes \<le> 6 then
           (case drop (length hashes) line of
              [] \<Rightarrow> None
            | c # cs \<Rightarrow> if is_space c then map_option to_eol (ws_then_rest cs) else None)
         else None)"

text \<open>
  \<open>re.compile(r'^-\s*\[[ x]\]\s*(.+)', re.IGNORECASE).match(line)\<close>, giving \<open>group(1)\<close>.
\<close>

definition checklist_pattern :: "string \<Rightarrow> string option" where
  "checklist_pattern line =
     (case line of
        [] \<Rightarrow> None
      | d # r \<Rightarrow>
          if d = CHR ''-'' then
            (case dropWhile is_space r of
               b # m # e # rest \<Rightarrow>
                 if b = CHR ''['' \<and> (m = CHR '' '' \<or> m = CHR ''x'' \<or> m = CHR ''X'')
                    \<and> e = CHR '']''
                 then map_option to_eol (ws_then_rest rest)
                 else None
             | _ \<Rightarrow> None)
          else None)"

text \<open>
  \<open>if current_checklist and current_checklist['items']: checklists.append(current_checklist)\<close>
\<close>

definition save_checklist :: "cl_state \<Rightarrow> checklist list" where
  "save_checklist st =
     (case current_checklist st of
        None \<Rightarrow> checklists st
      | Some cl \<Rightarrow> if cl_items cl \<noteq> [] then checklists st @ [cl] else checklists st)"

definition cl_step :: "int \<Rightarrow> string \<Rightarrow> cl_state \<Rightarrow> cl_state" where
  "cl_step i line st =
     (case section_pattern line of
        Some g \<Rightarrow>
          st\<lparr>checklists := save_checklist st, current_section := strip g,
             current_checklist := None\<rparr>
      | None \<Rightarrow>
          (case checklist_pattern line of
             Some g \<Rightarrow>
               (let cl = (case current_checklist st of
                            None \<Rightarrow> \<lparr>cl_section = current_section st, cl_items = [],
                                       cl_line_number = i\<rparr>
                          | Some cl \<Rightarrow> cl)
                in st\<lparr>current_checklist := Some (cl\<lparr>cl_items := cl_items cl @ [strip g]\<rparr>)\<rparr>)
           | None \<Rightarrow>
               if current_checklist st \<noteq> None \<and> strip line \<noteq> [] \<and> \<not> startswith ''-'' line
               then st\<lparr>checklists := save_checklist st, current_checklist := None\<rparr>
               else st))"

fun cl_loop :: "int \<Rightarrow> string list \<Rightarrow> cl_state \<Rightarrow> cl_state" where
  "cl_loop i [] st = st"
| "cl_loop i (line # lines) st = cl_loop (i + 1) lines (cl_step i line st)"

definition cl_init :: cl_state where
  "cl_init = \<lparr>checklists = [], current_section = ''Unknown'', current_checklist = None\<rparr>"

definition extract_checklists :: "string \<Rightarrow> checklist list" where
  "extract_checklists content = save_checklist (cl_loop 1 (split_nl content) cl_init)"

text \<open>
  Lines of a document with checklists: a checklist item line and its item text, and a line
  that is no checklist item.
\<close>

definition item_text :: "string \<Rightarrow> string" where
  "item_text line = (case checklist_pattern line of Some g \<Rightarrow> strip g | None \<Rightarrow> [])"

definition item_line :: "string \<Rightarrow> bool" where
  "item_line l = (checklist_pattern l \<noteq> None \<and> NL \<notin> set l)"

definition other_line :: "string \<Rightarrow> bool" where
  "other_line l = (checklist_pattern l = None \<and> NL \<notin> set l)"

section \<open>The checks\<close>

text \<open>A test passes, or its assertion fails with the data its message is built from.\<close>

datatype 'a outcome = Passed | AssertionError 'a

subsection \<open>Identity of the main document and its distribution copy\<close>

type_synonym byte = "8 word"

text \<open>
  The two tests of this check read the documents from their files. A file is the list of its
  bytes, and the text read from it the list of its code points. The checks of the other
  subsections are given the text of a document.
\<close>

datatype io_error = UnicodeDecodeError | UnicodeEncodeError

definition continuation :: "byte \<Rightarrow> bool" where
  "continuation b = (0x80 \<le> b \<and> b \<le> 0xBF)"

definition prepend :: "'a \<Rightarrow> 'e + 'a list \<Rightarrow> 'e + 'a list" where
  "prepend x r = (case r of Inl e \<Rightarrow> Inl e | Inr xs \<Rightarrow> Inr (x # xs))"

text \<open>
  The strict UTF-8 decoder: shortest forms only, no surrogates, nothing above \<open>U+10FFFF\<close>.
\<close>

fun utf8_decode :: "byte list \<Rightarrow> io_error + nat list" where
  "utf8_decode [] = Inr []"
| "utf8_decode (b # bs) =
     (if b < 0x80 then prepend (unat b) (utf8_decode bs)
      else if 0xC2 \<le> b \<and> b \<le> 0xDF then
        (case bs of
           c1 # r \<Rightarrow>
             if continuation c1
             then prepend ((unat b - 0xC0) * 64 + (unat c1 - 0x80)) (utf8_decode r)
             else Inl UnicodeDecodeError
         | _ \<Rightarrow> Inl UnicodeDecodeError)
      else if 0xE0 \<le> b \<and> b \<le> 0xEF then
        (case bs of
           c1 # c2 # r \<Rightarrow>
             if continuation c1 \<and> continuation c2
                \<and> (if b = 0xE0 then 0xA0 \<le> c1 else if b = 0xED then c1 \<le> 0x9F else True)
             then prepend ((unat b - 0xE0) * 4096 + (unat c1 - 0x80) * 64 + (unat c2 - 0x80))
                    (utf8_decode r)
             else Inl UnicodeDecodeError
         | _ \<Rightarrow> Inl UnicodeDecodeError)
      else if 0xF0 \<le> b \<and> b \<le> 0xF4 then
        (case bs of
           c1 # c2 # c3 # r \<Rightarrow>
             if continuation c1 \<and> continuation c2 \<and> continuation c3
                \<and> (if b = 0xF0 then 0x90 \<le> c1 else if b = 0xF4 then c1 \<le> 0x8F else True)
             then prepend ((unat b - 0xF0) * 262144 + (unat c1 - 0x80) * 4096
                           + (unat c2 - 0x80) * 64 + (unat c3 - 0x80))
                    (utf8_decode r)
             else Inl UnicodeDecodeError
         | _ \<Rightarrow> Inl UnicodeDecodeError)
      else Inl UnicodeDecodeError)"

text \<open>
  Text mode with universal newlines, the default of \<open>open\<close>: \<open>\r\n\<close> and \<open>\r\<close> are read as
  \<open>\n\<close>.
\<close>

fun universal_newlines :: "nat list \<Rightarrow> nat list" where
  "universal_newlines [] = []"
| "universal_newlines (c # cs) =
     (if c = 13 then
        (case cs of
           [] \<Rightarrow> [10]
         | d # ds \<Rightarrow> if d = 10 then 10 # universal_newlines ds else 10 # universal_newlines cs)
      else c # universal_newlines cs)"

text \<open>\<open>path.read_text(encoding='utf-8')\<close>.\<close>

definition read_text :: "byte list \<Rightarrow> io_error + nat list" where
  "read_text file =
     (case utf8_decode file of Inl e \<Rightarrow> Inl e | Inr cps \<Rightarrow> Inr (universal_newlines cps))"

text \<open>\<open>str.encode()\<close>: UTF-8; a surrogate cannot be encoded.\<close>

definition encode_code_point :: "nat \<Rightarrow> io_error + byte list" where
  "encode_code_point cp =
     (if cp < 0x80 then Inr [of_nat cp]
      else if cp < 0x800 then Inr [of_nat (0xC0 + cp div 64), of_nat (0x80 + cp mod 64)]
      else if 0xD800 \<le> cp \<and> cp \<le> 0xDFFF then Inl UnicodeEncodeError
      else if cp < 0x10000 then
        Inr [of_nat (0xE0 + cp div 4096), of_nat (0x80 + cp div 64 mod 64),
             of_nat (0x80 + cp mod 64)]
      else
        Inr [of_nat (0xF0 + cp div 262144), of_nat (0x80 + cp div 4096 mod 64),
             of_nat (0x80 + cp div 64 mod 64), of_nat (0x80 + cp mod 64)])"

fun encode :: "nat list \<Rightarrow> io_error + byte list" where
  "encode [] = Inr []"
| "encode (cp # cps) =
     (case encode_code_point cp of
        Inl e \<Rightarrow> Inl e
      | Inr bs \<Rightarrow> (case encode cps of Inl e \<Rightarrow> Inl e | Inr r \<Rightarrow> Inr (bs @ r)))"

text \<open>\<open>content.split('\n')\<close> on a text of code points.\<close>

fun split_newline :: "nat list \<Rightarrow> nat list list" where
  "split_newline [] = [[]]"
| "split_newline (c # cs) =
     (if c = 10 then [] # split_newline cs
      else (case split_newline cs of [] \<Rightarrow> [[c]] | l # ls \<Rightarrow> (c # l) # ls))"

text \<open>
  \<open>hashlib.sha256\<close> is a library function: it is the parameter \<open>sha256\<close>, from the bytes to
  the 256-bit digest that \<open>hexdigest()\<close> prints.
\<close>

definition test_main_and_cskill_identical ::
  "(byte list \<Rightarrow> 256 word) \<Rightarrow> byte list \<Rightarrow> byte list \<Rightarrow> io_error + string outcome" where
  "test_main_and_cskill_identical sha256 main_skill cskill =
     (case read_text main_skill of
        Inl e \<Rightarrow> Inl e
      | Inr main_content \<Rightarrow>
     (case read_text cskill of
        Inl e \<Rightarrow> Inl e
      | Inr cskill_content \<Rightarrow>
     (case encode main_content of
        Inl e \<Rightarrow> Inl e
      | Inr main_bytes \<Rightarrow>
     (case encode cskill_content of
        Inl e \<Rightarrow> Inl e
      | Inr cskill_bytes \<Rightarrow>
          Inr (let main_hash = sha256 main_bytes;
                   cskill_hash = sha256 cskill_bytes
               in if main_hash = cskill_hash then Passed
                  else AssertionError
                    ''skill.md and reasoning-optimizer-cskill/skill.md have diverged! They should be identical copies.'')))))"

definition test_main_and_cskill_line_counts_match ::
  "byte list \<Rightarrow> byte list \<Rightarrow> io_error + (int \<times> int) outcome" where
  "test_main_and_cskill_line_counts_match main_skill cskill =
     (case read_text main_skill of
        Inl e \<Rightarrow> Inl e
      | Inr main_content \<Rightarrow>
     (case read_text cskill of
        Inl e \<Rightarrow> Inl e
      | Inr cskill_content \<Rightarrow>
          Inr (let main_lines = split_newline main_content;
                   cskill_lines = split_newline cskill_content
               in if length main_lines = length cskill_lines then Passed
                  else AssertionError (int (length main_lines), int (length cskill_lines)))))"

subsection \<open>Equality of the section sets\<close>

text \<open>\<open>str.lower()\<close> on code points below 256.\<close>

definition lower_char :: "char \<Rightarrow> char" where
  "lower_char c =
     (let n = (of_char c :: nat)
      in if (65 \<le> n \<and> n \<le> 90) \<or> (192 \<le> n \<and> n \<le> 222 \<and> n \<noteq> 215)
         then char_of (n + 32) else c)"

definition lower :: "string \<Rightarrow> string" where
  "lower s = map lower_char s"

definition is_lower_az :: "char \<Rightarrow> bool" where
  "is_lower_az c = (let n = (of_char c :: nat) in 97 \<le> n \<and> n \<le> 122)"

text \<open>
  An attempt of \<open>^##\s+(.+)$\<close> (with \<open>re.MULTILINE\<close>) at the start of a line: the text from
  where \<open>group(1)\<close> starts. The whitespace may run over line ends.
\<close>

definition major_match :: "string \<Rightarrow> string option" where
  "major_match s =
     (case s of
        a # b # c # cs \<Rightarrow>
          if a = CHR ''#'' \<and> b = CHR ''#'' \<and> is_space c then ws_then_rest cs else None
      | _ \<Rightarrow> None)"

text \<open>The text after the end of the current line and its newline.\<close>

definition next_line :: "string \<Rightarrow> string" where
  "next_line s = drop 1 (dropWhile (\<lambda>c. c \<noteq> NL) s)"

text \<open>
  \<open>pattern.finditer(content)\<close>, as the list of \<open>group(1)\<close>; the argument is the text from
  the start of a line on.
\<close>

function major_headers :: "string \<Rightarrow> string list" where
  "major_headers s =
     (if s = [] then []
      else (case major_match s of
              Some r \<Rightarrow> to_eol r # major_headers (next_line r)
            | None \<Rightarrow> major_headers (next_line s)))"
  by pat_completeness auto

lemma ws_then_rest_length: "ws_then_rest s = Some r \<Longrightarrow> length r \<le> length s"
  by (induction s) (auto split: if_splits option.splits)

lemma major_match_length: "major_match s = Some r \<Longrightarrow> length r < length s"
  by (auto simp: major_match_def split: list.splits if_splits dest: ws_then_rest_length)

lemma next_line_length: "length (next_line s) \<le> length s"
  using length_dropWhile_le [of "\<lambda>c. c \<noteq> NL" s] by (simp add: next_line_def)

lemma next_line_shorter: "s \<noteq> [] \<Longrightarrow> length (next_line s) < length s"
proof (cases s)
  case Nil
  assume "s \<noteq> []"
  with Nil show ?thesis by simp
next
  case (Cons a list)
  have "length (dropWhile (\<lambda>c. c \<noteq> NL) list) \<le> length list"
    by (rule length_dropWhile_le)
  with Cons show ?thesis by (auto simp: next_line_def)
qed

termination major_headers
proof (relation "measure length")
  show "wf (measure length)" by simp
next
  fix s r
  assume "major_match s = Some r"
  then have "length r < length s" by (rule major_match_length)
  moreover have "length (next_line r) \<le> length r" by (rule next_line_length)
  ultimately show "(next_line r, s) \<in> measure length" by simp
next
  fix s :: string
  assume "s \<noteq> []"
  then show "(next_line s, s) \<in> measure length" by (simp add: next_line_shorter)
qed

declare major_headers.simps [simp del]

text \<open>
  \<open>re.sub(r'[^a-z\s]', '', match.group(1).lower()).strip()\<close>
\<close>

definition normalize_section :: "string \<Rightarrow> string" where
  "normalize_section g = strip (filter (\<lambda>c. is_lower_az c \<or> is_space c) (lower g))"

definition get_major_sections :: "string \<Rightarrow> string set" where
  "get_major_sections content =
     foldl (\<lambda>sections g. insert (normalize_section g) sections) {} (major_headers content)"










subsection \<open>Duplicate checklist items\<close>

text \<open>\<open>collections.Counter\<close>: the keys in the order of their first occurrence.\<close>

fun counter_add :: "string \<Rightarrow> (string \<times> int) list \<Rightarrow> (string \<times> int) list" where
  "counter_add k [] = [(k, 1)]"
| "counter_add k ((k', n) # kvs) =
     (if k = k' then (k', n + 1) # kvs else (k', n) # counter_add k kvs)"

definition Counter :: "string list \<Rightarrow> (string \<times> int) list" where
  "Counter xs = foldl (\<lambda>c k. counter_add k c) [] xs"

record duplicate =
  dup_section :: string
  dup_item :: string
  dup_count :: int

definition checklist_duplicates :: "checklist \<Rightarrow> duplicate list" where
  "checklist_duplicates cl =
     map (\<lambda>(item, count). \<lparr>dup_section = cl_section cl, dup_item = item, dup_count = count\<rparr>)
       (filter (\<lambda>(item, count). count > 1)
          (Counter (map (\<lambda>item. strip (lower item)) (cl_items cl))))"

definition duplicates :: "checklist list \<Rightarrow> duplicate list" where
  "duplicates cls = concat (map checklist_duplicates cls)"

definition test_no_duplicate_checklist_items :: "string \<Rightarrow> duplicate list outcome" where
  "test_no_duplicate_checklist_items content =
     (let dups = duplicates (extract_checklists content)
      in if length dups = 0 then Passed else AssertionError dups)"

subsection \<open>Link syntax\<close>

text \<open>
  An attempt of \<open>\[([^\]]*)\]\(([^\)]*)\)\<close> at the start of the text: \<open>group(1)\<close>,
  \<open>group(2)\<close> and the text after the match.
\<close>

definition link_match :: "string \<Rightarrow> (string \<times> string \<times> string) option" where
  "link_match s =
     (case s of
        [] \<Rightarrow> None
      | c # r \<Rightarrow>
          if c = CHR ''['' then
            (case dropWhile (\<lambda>d. d \<noteq> CHR '']'') r of
               e # p # u \<Rightarrow>
                 if p = CHR ''('' then
                   (case dropWhile (\<lambda>d. d \<noteq> CHR '')'') u of
                      [] \<Rightarrow> None
                    | q # rest \<Rightarrow>
                        Some (takeWhile (\<lambda>d. d \<noteq> CHR '']'') r,
                              takeWhile (\<lambda>d. d \<noteq> CHR '')'') u, rest))
                 else None
             | _ \<Rightarrow> None)
          else None)"

text \<open>\<open>link_pattern.finditer(content)\<close>, as the list of \<open>(group(1), group(2))\<close>.\<close>

function link_matches :: "string \<Rightarrow> (string \<times> string) list" where
  "link_matches s =
     (if s = [] then []
      else (case link_match s of
              Some (link_text, link_url, rest) \<Rightarrow> (link_text, link_url) # link_matches rest
            | None \<Rightarrow> link_matches (tl s)))"
  by pat_completeness auto

lemma link_match_length: "link_match s = Some (t, u, rest) \<Longrightarrow> length rest < length s"
proof -
  assume m: "link_match s = Some (t, u, rest)"
  then obtain r e v q where s: "s = CHR ''['' # r"
    and d1: "dropWhile (\<lambda>d. d \<noteq> CHR '']'') r = e # CHR ''('' # v"
    and d2: "dropWhile (\<lambda>d. d \<noteq> CHR '')'') v = q # rest"
    by (auto simp: link_match_def split: list.splits if_splits)
  have "length (q # rest) \<le> length v" using length_dropWhile_le [of _ v] d2 by metis
  moreover have "length (e # CHR ''('' # v) \<le> length r"
    using length_dropWhile_le [of _ r] d1 by metis
  ultimately show ?thesis using s by simp
qed

termination link_matches
proof (relation "measure length")
  show "wf (measure length)" by simp
next
  fix s x link_text y link_url rest
  assume "link_match s = Some x" "(link_text, y) = x" "(link_url, rest) = y"
  then have "link_match s = Some (link_text, link_url, rest)" by simp
  then show "(rest, s) \<in> measure length" by (simp add: link_match_length)
next
  fix s :: string
  assume "s \<noteq> []"
  then show "(tl s, s) \<in> measure length" by (cases s) simp_all
qed

declare link_matches.simps [simp del]

record malformed_link =
  ml_file :: string
  ml_issue :: string
  ml_url :: string

definition link_issues :: "string \<Rightarrow> string \<times> string \<Rightarrow> malformed_link list" where
  "link_issues file m =
     (case m of (link_text, link_url) \<Rightarrow>
        (if strip link_text = [] then
           [\<lparr>ml_file = file, ml_issue = ''empty link text'', ml_url = link_url\<rparr>]
         else []) @
        (if strip link_url \<noteq> link_url then
           [\<lparr>ml_file = file, ml_issue = ''whitespace in URL'', ml_url = link_url\<rparr>]
         else []))"

text \<open>The files are given by name and content.\<close>

definition malformed_links :: "(string \<times> string) list \<Rightarrow> malformed_link list" where
  "malformed_links md_files =
     concat (map (\<lambda>(name, content). concat (map (link_issues name) (link_matches content)))
       md_files)"

definition test_link_format_valid :: "(string \<times> string) list \<Rightarrow> malformed_link list outcome" where
  "test_link_format_valid md_files =
     (let malformed = malformed_links md_files
      in if length malformed = 0 then Passed else AssertionError malformed)"

section \<open>Lines of a text\<close>

lemma split_nl_not_Nil: "split_nl s \<noteq> []"
  by (induction s) (auto split: list.splits)

lemma split_nl_append: "split_nl (a @ NL # b) = split_nl a @ split_nl b"
  by (induction a) (auto split: list.splits simp: split_nl_not_Nil)

lemma split_nl_line: "NL \<notin> set l \<Longrightarrow> split_nl l = [l]"
  by (induction l) auto

lemma split_nl_join_nl:
  "ls \<noteq> [] \<Longrightarrow> list_all (\<lambda>l. NL \<notin> set l) ls \<Longrightarrow> split_nl (join_nl ls) = ls"
  by (induction ls rule: join_nl.induct) (auto simp: split_nl_line split_nl_append)

section \<open>Properties of the code-block extractor\<close>

lemma cb_loop_append:
  "cb_loop i (xs @ ys) st =
     (case cb_loop i xs st of Inl e \<Rightarrow> Inl e | Inr st' \<Rightarrow> cb_loop (i + int (length xs)) ys st')"
  by (induction xs arbitrary: i st) (auto split: sum.splits simp: algebra_simps)

lemma cb_loop_append_Inr:
  "cb_loop i xs st = Inr st1 \<Longrightarrow>
   cb_loop i (xs @ ys) st = cb_loop (i + int (length xs)) ys st1"
  by (simp add: cb_loop_append)

lemma cb_loop_outside:
  "\<not> in_code_block st \<Longrightarrow> list_all (\<lambda>l. \<not> startswith ''```'' l) ls \<Longrightarrow> cb_loop i ls st = Inr st"
  by (induction ls arbitrary: i) (auto simp: cb_step_def code_fence_pattern_def)

lemma cb_loop_inside:
  "in_code_block st \<Longrightarrow> current_block st = Some b \<Longrightarrow>
   list_all (\<lambda>l. \<not> startswith ''```'' l) ls \<Longrightarrow>
   cb_loop i ls st = Inr (st\<lparr>current_block := Some (b\<lparr>ob_code := ob_code b @ ls\<rparr>)\<rparr>)"
  by (induction ls arbitrary: i st b) (auto simp: cb_step_def)

lemma cb_loop_fenced:
  assumes "\<not> in_code_block st" "well_formed f"
  shows "\<exists>st'. cb_loop i (fenced_lines f) st = Inr st' \<and> \<not> in_code_block st'
           \<and> code_blocks st' = code_blocks st @ expected_blocks i [f]"
proof -
  obtain before opener body closer where f: "f = (before, opener, body, closer)"
    by (cases f) auto
  from assms(2) f have pb: "list_all (\<lambda>l. \<not> startswith ''```'' l) before"
    and po: "startswith ''```'' opener"
    and pbody: "list_all (\<lambda>l. \<not> startswith ''```'' l) body"
    and pc: "startswith ''```'' closer"
    by (auto simp: plain_line_def fence_line_def list_all_iff)
  show ?thesis
    using assms(1) po pc
    by (simp add: f cb_loop_append cb_loop_outside [OF assms(1) pb]
        cb_step_def code_fence_pattern_def cb_loop_inside [OF _ _ pbody])
qed

lemma cb_loop_fenced_list:
  "\<not> in_code_block st \<Longrightarrow> list_all well_formed fs \<Longrightarrow>
   \<exists>st'. cb_loop i (concat (map fenced_lines fs)) st = Inr st' \<and> \<not> in_code_block st'
           \<and> code_blocks st' = code_blocks st @ expected_blocks i fs"
proof (induction fs arbitrary: i st)
  case Nil
  then show ?case by simp
next
  case (Cons f fs)
  obtain before opener body closer where f: "f = (before, opener, body, closer)"
    by (cases f) auto
  from Cons.prems obtain st1 where 1: "cb_loop i (fenced_lines f) st = Inr st1"
    "\<not> in_code_block st1" "code_blocks st1 = code_blocks st @ expected_blocks i [f]"
    using cb_loop_fenced [of st f i] by auto
  from Cons.prems have "list_all well_formed fs" by simp
  from Cons.IH [OF 1(2) this, of "i + int (length (fenced_lines f))"]
  obtain st2 where 2: "cb_loop (i + int (length (fenced_lines f))) (concat (map fenced_lines fs)) st1 = Inr st2"
    "\<not> in_code_block st2"
    "code_blocks st2 = code_blocks st1 @ expected_blocks (i + int (length (fenced_lines f))) fs"
    by auto
  have len: "i + int (length (fenced_lines f)) = i + int (length before) + int (length body) + 2"
    by (simp add: f)
  note 3 = 2 [unfolded len]
  have "cb_loop i (concat (map fenced_lines (f # fs))) st = Inr st2"
    using 1(1) 2(1) by (simp add: cb_loop_append)
  moreover have "code_blocks st2 = code_blocks st @ expected_blocks i (f # fs)"
    using 1(3) 3(3) by (simp add: f)
  ultimately show ?case using 2(2) by blast
qed


lemma fenced_lines_no_nl:
  "list_all well_formed fs \<Longrightarrow> list_all (\<lambda>l. NL \<notin> set l) (concat (map fenced_lines fs))"
  by (induction fs) (auto simp: plain_line_def fence_line_def list_all_iff)

lemma plain_lines_no_nl: "list_all plain_line ls \<Longrightarrow> list_all (\<lambda>l. NL \<notin> set l) ls"
  by (simp add: plain_line_def list_all_iff)

lemma plain_lines_no_fence:
  "list_all plain_line ls \<Longrightarrow> list_all (\<lambda>l. \<not> startswith ''```'' l) ls"
  by (simp add: plain_line_def list_all_iff)

lemma cb_loop_document:
  assumes "list_all well_formed fs" "list_all plain_line rest"
  shows "\<exists>st'. cb_loop 1 (concat (map fenced_lines fs) @ rest) cb_init = Inr st'
           \<and> \<not> in_code_block st' \<and> code_blocks st' = expected_blocks 1 fs"
proof -
  have "\<not> in_code_block cb_init" by (simp add: cb_init_def)
  from cb_loop_fenced_list [OF this assms(1), of 1]
  obtain st1 where 1: "cb_loop 1 (concat (map fenced_lines fs)) cb_init = Inr st1"
    "\<not> in_code_block st1" "code_blocks st1 = expected_blocks 1 fs"
    by (auto simp: cb_init_def)
  show ?thesis
    using 1 cb_loop_outside [OF 1(2) plain_lines_no_fence [OF assms(2)]]
    by (simp add: cb_loop_append)
qed

lemma cb_loop_empty_text: "cb_loop 1 (split_nl []) cb_init = Inr cb_init"
  by (simp add: cb_step_def cb_init_def code_fence_pattern_def startswith_def)

lemma expected_blocks_length: "length (expected_blocks i fs) = length fs"
  by (induction fs arbitrary: i) auto

lemma expected_blocks_code: "map code (expected_blocks i fs) = map fenced_body fs"
  by (induction fs arbitrary: i) auto

lemma extract_document:
  assumes "list_all well_formed fs" "list_all plain_line rest"
  shows "extract_code_blocks (join_nl (concat (map fenced_lines fs) @ rest)) =
           Inr (expected_blocks 1 fs)"
proof -
  let ?ls = "concat (map fenced_lines fs) @ rest"
  have nl: "list_all (\<lambda>l. NL \<notin> set l) ?ls"
    using fenced_lines_no_nl [OF assms(1)] plain_lines_no_nl [OF assms(2)] by simp
  from cb_loop_document [OF assms] obtain st' where
    st': "cb_loop 1 ?ls cb_init = Inr st'" "code_blocks st' = expected_blocks 1 fs"
    by blast
  show ?thesis
  proof (cases "?ls = []")
    case True
    then have "fs = []" by (cases fs) (auto split: prod.splits)
    with True show ?thesis
      using cb_loop_empty_text by (simp add: extract_code_blocks_def cb_init_def)
  next
    case False
    then have "split_nl (join_nl ?ls) = ?ls" using nl by (rule split_nl_join_nl)
    then show ?thesis using st' by (simp add: extract_code_blocks_def)
  qed
qed

text \<open>
  Claim C2. Round trip on fences. A document is built from \<open>N\<close> fenced blocks, each with
  prose lines before it, an opening fence line, body lines and a closing fence line, and from
  prose lines after the last block; no prose or body line starts with three backticks. The
  extractor returns without error exactly \<open>N\<close> records, in the order of the source, and the
  body of each record is the text between its fences (the body lines joined by newlines).
\<close>

theorem extract_code_blocks_round_trip:
  assumes "list_all well_formed fs" "list_all plain_line rest"
  shows "extract_code_blocks (join_nl (concat (map fenced_lines fs) @ rest)) =
           Inr (expected_blocks 1 fs)
         \<and> length (expected_blocks 1 fs) = length fs
         \<and> map code (expected_blocks 1 fs) = map fenced_body fs"
  using extract_document [OF assms] by (simp add: expected_blocks_length expected_blocks_code)

theorem extract_code_blocks_round_trip_witness:
  "list_all well_formed
     [([''intro''], ''```python'', [''x = 1'', ''``y''], ''```''), ([], ''```'', [], ''```'')]
   \<and> list_all plain_line [''end'']
   \<and> extract_code_blocks
     (join_nl [''intro'', ''```python'', ''x = 1'', ''``y'', ''```'', ''```'', ''```'', ''end'']) =
     Inr [\<lparr>language = ''python'', code = join_nl [''x = 1'', ''``y''], line_number = 2\<rparr>,
          \<lparr>language = '''', code = '''', line_number = 6\<rparr>]"
  using extract_code_blocks_round_trip
    [of "[([''intro''], ''```python'', [''x = 1'', ''``y''], ''```''), ([], ''```'', [], ''```'')]"
        "[''end'']"]
  by (simp add: plain_line_def fence_line_def startswith_def is_word_def)

lemma cb_step_total:
  assumes "in_code_block st = (current_block st \<noteq> None)"
  shows "\<exists>st' bs. cb_step i l st = Inr st'
           \<and> in_code_block st' = (current_block st' \<noteq> None)
           \<and> code_blocks st' = code_blocks st @ bs"
  using assms by (auto simp: cb_step_def split: option.splits)

lemma cb_loop_total:
  "in_code_block st = (current_block st \<noteq> None) \<Longrightarrow>
   \<exists>st' bs. cb_loop i ls st = Inr st'
     \<and> in_code_block st' = (current_block st' \<noteq> None)
     \<and> code_blocks st' = code_blocks st @ bs"
proof (induction ls arbitrary: i st)
  case Nil
  then show ?case by simp
next
  case (Cons l ls)
  from cb_step_total [OF Cons.prems, of i l] obtain st1 bs1 where
    1: "cb_step i l st = Inr st1" "in_code_block st1 = (current_block st1 \<noteq> None)"
       "code_blocks st1 = code_blocks st @ bs1"
    by blast
  from Cons.IH [OF 1(2), of "i + 1"] obtain st2 bs2 where
    2: "cb_loop (i + 1) ls st1 = Inr st2" "in_code_block st2 = (current_block st2 \<noteq> None)"
       "code_blocks st2 = code_blocks st1 @ bs2"
    by blast
  have "cb_loop i (l # ls) st = Inr st2" using 1(1) 2(1) by simp
  moreover have "code_blocks st2 = code_blocks st @ (bs1 @ bs2)" using 1(3) 2(3) by simp
  ultimately show ?case using 2(2) by blast
qed

lemma extract_code_blocks_total: "\<exists>bs. extract_code_blocks content = Inr bs"
proof -
  have "in_code_block cb_init = (current_block cb_init \<noteq> None)" by (simp add: cb_init_def)
  from cb_loop_total [OF this, of 1 "split_nl content"] show ?thesis
    by (auto simp: extract_code_blocks_def)
qed

lemma extract_join_nl:
  assumes "ls \<noteq> []" "list_all (\<lambda>l. NL \<notin> set l) ls" "cb_loop 1 ls cb_init = Inr st"
  shows "extract_code_blocks (join_nl ls) = Inr (code_blocks st)"
  using assms by (simp add: extract_code_blocks_def split_nl_join_nl)

text \<open>
  Claim C4. A document whose final opening fence is never closed: well-formed fenced blocks
  and prose, then an opening fence line and lines none of which starts with three backticks,
  up to the end of the input. The extractor raises no error and returns the records of the
  blocks closed before, none for the unterminated block: the same result as for the document
  cut before the final opening fence.
\<close>

theorem unterminated_block_dropped:
  assumes "list_all well_formed fs" "list_all plain_line rest"
    and "fence_line opener" "list_all plain_line body"
  shows "extract_code_blocks (join_nl (concat (map fenced_lines fs) @ rest @ opener # body)) =
           Inr (expected_blocks 1 fs)
         \<and> extract_code_blocks (join_nl (concat (map fenced_lines fs) @ rest)) =
           Inr (expected_blocks 1 fs)"
proof -
  let ?pre = "concat (map fenced_lines fs) @ rest"
  from cb_loop_document [OF assms(1,2)] obtain st1 where
    1: "cb_loop 1 ?pre cb_init = Inr st1" "\<not> in_code_block st1"
       "code_blocks st1 = expected_blocks 1 fs"
    by blast
  let ?i = "1 + int (length ?pre)"
  let ?b = "\<lparr>ob_language = takeWhile is_word (drop 3 opener), ob_code = [], ob_line_number = ?i\<rparr>"
  let ?st2 = "st1\<lparr>in_code_block := True, current_block := Some ?b, start_line := ?i\<rparr>"
  have 2: "cb_step ?i opener st1 = Inr ?st2"
    using 1(2) assms(3) by (simp add: cb_step_def code_fence_pattern_def fence_line_def)
  have 3: "cb_loop (?i + 1) body ?st2 =
             Inr (?st2\<lparr>current_block := Some (?b\<lparr>ob_code := ob_code ?b @ body\<rparr>)\<rparr>)"
    by (rule cb_loop_inside) (simp_all add: plain_lines_no_fence [OF assms(4)])
  have "cb_loop 1 (?pre @ opener # body) cb_init = cb_loop ?i (opener # body) st1"
    by (rule cb_loop_append_Inr [OF 1(1)])
  then have "cb_loop 1 (?pre @ opener # body) cb_init =
          Inr (?st2\<lparr>current_block := Some (?b\<lparr>ob_code := ob_code ?b @ body\<rparr>)\<rparr>)"
    using 2 3 by simp
  moreover have "list_all (\<lambda>l. NL \<notin> set l) (?pre @ opener # body)"
    using fenced_lines_no_nl [OF assms(1)] plain_lines_no_nl [OF assms(2)]
      plain_lines_no_nl [OF assms(4)] assms(3)
    by (simp add: fence_line_def)
  ultimately have "extract_code_blocks (join_nl (?pre @ opener # body)) = Inr (expected_blocks 1 fs)"
    using extract_join_nl [of "?pre @ opener # body"] 1(3) by simp
  moreover have "extract_code_blocks (join_nl ?pre) = Inr (expected_blocks 1 fs)"
    using extract_document [OF assms(1,2)] by simp
  ultimately show ?thesis by simp
qed

theorem unterminated_block_dropped_witness:
  "list_all well_formed [([''intro''], ''```python'', [''x = 1''], ''```'')]
   \<and> list_all plain_line [''text''] \<and> fence_line ''```sh'' \<and> list_all plain_line [''ls'', ''pwd'']
   \<and> extract_code_blocks
         (join_nl [''intro'', ''```python'', ''x = 1'', ''```'', ''text'', ''```sh'', ''ls'', ''pwd'']) =
       Inr [\<lparr>language = ''python'', code = ''x = 1'', line_number = 2\<rparr>]
   \<and> extract_code_blocks (join_nl [''intro'', ''```python'', ''x = 1'', ''```'', ''text'']) =
       Inr [\<lparr>language = ''python'', code = ''x = 1'', line_number = 2\<rparr>]"
  using unterminated_block_dropped
    [of "[([''intro''], ''```python'', [''x = 1''], ''```'')]" "[''text'']" "''```sh''"
        "[''ls'', ''pwd'']"]
  by (simp add: plain_line_def fence_line_def startswith_def is_word_def)

text \<open>
  Claim C3, as amended. After an opening fence, the lines that do not start with three
  backticks are appended verbatim to the body, and the first line that starts with three
  backticks closes the block and emits it, whatever follows the backticks on that line and
  whatever lines come after it.
\<close>

theorem first_fence_line_closes:
  assumes "list_all well_formed fs" "list_all plain_line rest"
    and "fence_line opener" "list_all plain_line body" "fence_line closer"
    and "list_all (\<lambda>l. NL \<notin> set l) after"
  shows "\<exists>bs. extract_code_blocks
           (join_nl (concat (map fenced_lines fs) @ rest @ opener # body @ closer # after)) =
         Inr (expected_blocks 1 fs @
              \<lparr>language = takeWhile is_word (drop 3 opener), code = join_nl body,
               line_number = 1 + int (length (concat (map fenced_lines fs) @ rest))\<rparr> # bs)"
proof -
  let ?pre = "concat (map fenced_lines fs) @ rest"
  from cb_loop_document [OF assms(1,2)] obtain st1 where
    1: "cb_loop 1 ?pre cb_init = Inr st1" "\<not> in_code_block st1"
       "code_blocks st1 = expected_blocks 1 fs"
    by blast
  let ?i = "1 + int (length ?pre)"
  let ?b = "\<lparr>ob_language = takeWhile is_word (drop 3 opener), ob_code = [], ob_line_number = ?i\<rparr>"
  let ?st2 = "st1\<lparr>in_code_block := True, current_block := Some ?b, start_line := ?i\<rparr>"
  let ?st3 = "?st2\<lparr>current_block := Some (?b\<lparr>ob_code := ob_code ?b @ body\<rparr>)\<rparr>"
  let ?blk = "\<lparr>language = takeWhile is_word (drop 3 opener), code = join_nl body,
               line_number = ?i\<rparr>"
  let ?st4 = "?st3\<lparr>in_code_block := False, code_blocks := code_blocks ?st3 @ [?blk],
                     current_block := None\<rparr>"
  have 2: "cb_step ?i opener st1 = Inr ?st2"
    using 1(2) assms(3) by (simp add: cb_step_def code_fence_pattern_def fence_line_def)
  have 3: "cb_loop (?i + 1) body ?st2 = Inr ?st3"
    by (rule cb_loop_inside) (simp_all add: plain_lines_no_fence [OF assms(4)])
  have 4: "cb_step (?i + 1 + int (length body)) closer ?st3 = Inr ?st4"
    using assms(5) by (simp add: cb_step_def fence_line_def)
  have "in_code_block ?st4 = (current_block ?st4 \<noteq> None)" by simp
  from cb_loop_total [OF this, of "?i + 1 + int (length body) + 1" after]
  obtain st5 bs where
    5: "cb_loop (?i + 1 + int (length body) + 1) after ?st4 = Inr st5"
       "code_blocks st5 = code_blocks ?st4 @ bs"
    by blast
  have "cb_loop (?i + 1) (body @ closer # after) ?st2 = Inr st5"
    using cb_loop_append_Inr [OF 3, of "closer # after"] 4 5(1) by simp
  then have "cb_loop ?i (opener # body @ closer # after) st1 = Inr st5"
    using 2 by simp
  then have "cb_loop 1 (?pre @ opener # body @ closer # after) cb_init = Inr st5"
    using cb_loop_append_Inr [OF 1(1), of "opener # body @ closer # after"] by simp
  moreover have "list_all (\<lambda>l. NL \<notin> set l) (?pre @ opener # body @ closer # after)"
    using fenced_lines_no_nl [OF assms(1)] plain_lines_no_nl [OF assms(2)]
      plain_lines_no_nl [OF assms(4)] assms(3,5,6)
    by (simp add: fence_line_def)
  ultimately have "extract_code_blocks (join_nl (?pre @ opener # body @ closer # after)) =
      Inr (code_blocks st5)"
    using extract_join_nl [of "?pre @ opener # body @ closer # after"] by simp
  moreover have "code_blocks st5 = expected_blocks 1 fs @ ?blk # bs"
    using 5(2) 1(3) by simp
  ultimately show ?thesis by auto
qed

theorem first_fence_line_closes_witness:
  "list_all well_formed [] \<and> list_all plain_line [''intro''] \<and> fence_line ''```''
   \<and> list_all plain_line [''a'', '' ```'', ''``b''] \<and> fence_line ''```python''
   \<and> list_all (\<lambda>l. NL \<notin> set l) [''x'', ''```'']
   \<and> (\<exists>bs. extract_code_blocks
          (join_nl [''intro'', ''```'', ''a'', '' ```'', ''``b'', ''```python'', ''x'', ''```'']) =
        Inr (\<lparr>language = '''', code = join_nl [''a'', '' ```'', ''``b''], line_number = 2\<rparr> # bs))"
  using first_fence_line_closes
    [of "[]" "[''intro'']" "''```''" "[''a'', '' ```'', ''``b'']" "''```python''" "[''x'', ''```'']"]
  by (simp add: plain_line_def fence_line_def startswith_def is_word_def)

text \<open>
  Claim C3 as stated fails: inside the block opened on line 1, line 2 begins with backticks
  and carries text after them; it closes the block, with an empty body, instead of being
  appended to the body.
\<close>

theorem fence_with_text_closes_block:
  "cb_step 2 ''```python''
     \<lparr>code_blocks = [], in_code_block = True,
      current_block = Some \<lparr>ob_language = '''', ob_code = [], ob_line_number = 1\<rparr>,
      start_line = 1\<rparr> =
   Inr \<lparr>code_blocks = [\<lparr>language = '''', code = '''', line_number = 1\<rparr>],
        in_code_block = False, current_block = None, start_line = 1\<rparr>
   \<and> extract_code_blocks (join_nl [''```'', ''```python'', ''x'', ''```'']) =
     Inr [\<lparr>language = '''', code = '''', line_number = 1\<rparr>]"
  by (simp add: extract_code_blocks_def cb_init_def cb_step_def code_fence_pattern_def
      startswith_def is_word_def)

section \<open>Properties of the checklist extractor\<close>

lemma checklist_pattern_dash: "checklist_pattern l = Some g \<Longrightarrow> \<exists>r. l = CHR ''-'' # r"
  by (auto simp: checklist_pattern_def split: list.splits if_splits)

lemma item_not_section: "checklist_pattern l = Some g \<Longrightarrow> section_pattern l = None"
  by (auto simp: section_pattern_def dest!: checklist_pattern_dash)

lemma cl_step_item:
  assumes "checklist_pattern l \<noteq> None" "current_checklist st = Some cl"
  shows "cl_step i l st = st\<lparr>current_checklist := Some (cl\<lparr>cl_items := cl_items cl @ [item_text l]\<rparr>)\<rparr>"
  using assms by (auto simp: cl_step_def item_text_def item_not_section)

lemma cl_step_first_item:
  assumes "checklist_pattern l \<noteq> None" "current_checklist st = None"
  shows "cl_step i l st =
    st\<lparr>current_checklist :=
         Some \<lparr>cl_section = current_section st, cl_items = [item_text l], cl_line_number = i\<rparr>\<rparr>"
  using assms by (auto simp: cl_step_def item_text_def item_not_section)

lemma cl_loop_append:
  "cl_loop i (xs @ ys) st = cl_loop (i + int (length xs)) ys (cl_loop i xs st)"
  by (induction xs arbitrary: i st) (auto simp: algebra_simps)

lemma cl_loop_items:
  "list_all item_line ls \<Longrightarrow> current_checklist st = Some cl \<Longrightarrow>
   cl_loop i ls st = st\<lparr>current_checklist := Some (cl\<lparr>cl_items := cl_items cl @ map item_text ls\<rparr>)\<rparr>"
proof (induction ls arbitrary: i st cl)
  case Nil
  then show ?case by simp
next
  case (Cons l ls)
  from Cons.prems have "item_line l" and ls: "list_all item_line ls" by simp_all
  then have l: "checklist_pattern l \<noteq> None" by (simp add: item_line_def)
  show ?case
    using Cons.IH [OF ls, of "cl_step i l st" "cl\<lparr>cl_items := cl_items cl @ [item_text l]\<rparr>" "i + 1"]
    by (simp add: cl_step_item [OF l Cons.prems(2)])
qed

lemma cl_loop_new_group:
  assumes "list_all item_line (l # ls)" "current_checklist st = None"
  shows "cl_loop i (l # ls) st =
    st\<lparr>current_checklist :=
         Some \<lparr>cl_section = current_section st, cl_items = map item_text (l # ls),
               cl_line_number = i\<rparr>\<rparr>"
proof -
  from assms(1) have "item_line l" and ls: "list_all item_line ls" by simp_all
  then have l: "checklist_pattern l \<noteq> None" by (simp add: item_line_def)
  show ?thesis
    using cl_loop_items [OF ls, of "cl_step i l st"
        "\<lparr>cl_section = current_section st, cl_items = [item_text l], cl_line_number = i\<rparr>" "i + 1"]
    by (simp add: cl_step_first_item [OF l assms(2)])
qed

lemma save_checklist_cl_step:
  "checklist_pattern l = None \<Longrightarrow> save_checklist (cl_step i l st) = save_checklist st"
  by (auto simp: cl_step_def save_checklist_def split: option.splits)

lemma save_checklist_cl_loop:
  "list_all other_line ls \<Longrightarrow> save_checklist (cl_loop i ls st) = save_checklist st"
  by (induction ls arbitrary: i st) (auto simp: save_checklist_cl_step other_line_def)

lemma cl_step_nonempty:
  "list_all (\<lambda>cl. cl_items cl \<noteq> []) (checklists st) \<Longrightarrow>
   list_all (\<lambda>cl. cl_items cl \<noteq> []) (checklists (cl_step i l st))"
  by (auto simp: cl_step_def save_checklist_def Let_def split: option.splits)

lemma cl_loop_nonempty:
  "list_all (\<lambda>cl. cl_items cl \<noteq> []) (checklists st) \<Longrightarrow>
   list_all (\<lambda>cl. cl_items cl \<noteq> []) (checklists (cl_loop i ls st))"
  by (induction ls arbitrary: i st) (auto simp: cl_step_nonempty)

lemma extract_checklists_nonempty:
  "list_all (\<lambda>cl. cl_items cl \<noteq> []) (extract_checklists content)"
proof -
  have "list_all (\<lambda>cl. cl_items cl \<noteq> []) (checklists cl_init)" by (simp add: cl_init_def)
  then have "list_all (\<lambda>cl. cl_items cl \<noteq> []) (checklists (cl_loop 1 (split_nl content) cl_init))"
    by (rule cl_loop_nonempty)
  then show ?thesis
    by (auto simp: extract_checklists_def save_checklist_def split: option.splits)
qed

lemma cl_step_heading:
  "section_pattern l = Some g \<Longrightarrow>
   cl_step i l st = st\<lparr>checklists := save_checklist st, current_section := strip g,
                       current_checklist := None\<rparr>"
  by (simp add: cl_step_def)

text \<open>
  Claim C5. Checklist grouping. For a document that consists of a heading line, then
  \<open>K \<ge> 1\<close> checklist item lines, then a blank line, then lines that are no checklist
  items, the extractor returns exactly one group: it is attributed to the heading, starts on
  line 2 and holds the \<open>K\<close> item texts in the order of the document. And for every
  input, every group the extractor returns has at least one item.
\<close>

theorem checklist_grouping:
  assumes "section_pattern heading = Some g" "NL \<notin> set heading"
    and "items \<noteq> []" "list_all item_line items" "list_all other_line prose"
  shows "extract_checklists (join_nl (heading # items @ '''' # prose)) =
           [\<lparr>cl_section = strip g, cl_items = map item_text items, cl_line_number = 2\<rparr>]
         \<and> length (map item_text items) = length items
         \<and> list_all (\<lambda>cl. cl_items cl \<noteq> []) (extract_checklists content)"
proof -
  let ?ls = "heading # items @ [] # prose"
  have "list_all (\<lambda>l. NL \<notin> set l) ?ls"
    using assms(2,4,5) by (auto simp: item_line_def other_line_def list_all_iff)
  then have split: "split_nl (join_nl ?ls) = ?ls" by (simp add: split_nl_join_nl)
  let ?st1 = "cl_init\<lparr>checklists := save_checklist cl_init, current_section := strip g,
                current_checklist := None\<rparr>"
  let ?cl = "\<lparr>cl_section = strip g, cl_items = map item_text items, cl_line_number = 2\<rparr>"
  obtain l ls where items: "items = l # ls" using assms(3) by (cases items) auto
  have 2: "cl_loop 2 items ?st1 = ?st1\<lparr>current_checklist := Some ?cl\<rparr>"
    using cl_loop_new_group [of l ls ?st1 2] assms(4) by (simp add: items)
  have "other_line []" by (simp add: other_line_def checklist_pattern_def)
  with assms(5) have "list_all other_line ([] # prose)" by simp
  then have "save_checklist (cl_loop (2 + int (length items)) ([] # prose) (?st1\<lparr>current_checklist := Some ?cl\<rparr>))
      = save_checklist (?st1\<lparr>current_checklist := Some ?cl\<rparr>)"
    by (rule save_checklist_cl_loop)
  then have "save_checklist (cl_loop 1 ?ls cl_init) = save_checklist (?st1\<lparr>current_checklist := Some ?cl\<rparr>)"
    using 2 by (simp add: cl_step_heading [OF assms(1)] cl_loop_append)
  then have "extract_checklists (join_nl ?ls) = [?cl]"
    using assms(3) by (simp add: extract_checklists_def split save_checklist_def cl_init_def)
  then show ?thesis using extract_checklists_nonempty by simp
qed

theorem checklist_grouping_witness:
  "section_pattern ''## Phase 1'' = Some ''Phase 1'' \<and> NL \<notin> set ''## Phase 1''
   \<and> [''- [ ] Check input'', ''- [X]  Verify output ''] \<noteq> []
   \<and> list_all item_line [''- [ ] Check input'', ''- [X]  Verify output '']
   \<and> list_all other_line [''Some prose.'', ''- a plain bullet'']
   \<and> extract_checklists
         (join_nl [''## Phase 1'', ''- [ ] Check input'', ''- [X]  Verify output '', '''',
                   ''Some prose.'', ''- a plain bullet'']) =
       [\<lparr>cl_section = ''Phase 1'', cl_items = [''Check input'', ''Verify output''],
         cl_line_number = 2\<rparr>]
   \<and> list_all (\<lambda>cl. cl_items cl \<noteq> []) (extract_checklists ''- [ ] '')"
proof -
  have h1: "section_pattern ''## Phase 1'' = Some ''Phase 1''" by code_simp
  have h2: "NL \<notin> set ''## Phase 1''" by simp
  have h3: "[''- [ ] Check input'', ''- [X]  Verify output ''] \<noteq> []" by simp
  have h4: "list_all item_line [''- [ ] Check input'', ''- [X]  Verify output '']"
    by code_simp
  have h5: "list_all other_line [''Some prose.'', ''- a plain bullet'']" by code_simp
  have t: "strip ''Phase 1'' = ''Phase 1''"
    "item_text ''- [ ] Check input'' = ''Check input''"
    "item_text ''- [X]  Verify output '' = ''Verify output''"
    by code_simp+
  show ?thesis
    using checklist_grouping [OF h1 h2 h3 h4 h5, of "''- [ ] ''"] h1 h4 h5
    by (simp add: t)
qed

lemma is_space_not_dash: "is_space c \<Longrightarrow> c \<noteq> CHR ''-''"
  by (auto simp: is_space_def)

lemma is_space_not_hash: "is_space c \<Longrightarrow> c \<noteq> CHR ''#''"
  by (auto simp: is_space_def)

lemma strip_empty: "strip s = [] \<Longrightarrow> list_all is_space s"
proof -
  assume "strip s = []"
  then have all: "\<forall>c\<in>set (dropWhile is_space s). is_space c"
    by (simp add: strip_def dropWhile_eq_Nil_conv)
  have "dropWhile is_space s = []"
  proof (rule ccontr)
    assume ne: "dropWhile is_space s \<noteq> []"
    then have "\<not> is_space (hd (dropWhile is_space s))" by (rule hd_dropWhile)
    moreover have "hd (dropWhile is_space s) \<in> set (dropWhile is_space s)"
      using ne by simp
    ultimately show False using all by blast
  qed
  then show ?thesis by (simp add: dropWhile_eq_Nil_conv list_all_iff)
qed

lemma indented_line_facts:
  assumes "ws \<noteq> []" "list_all is_space ws" "checklist_pattern item \<noteq> None"
  shows "checklist_pattern (ws @ item) = None" "section_pattern (ws @ item) = None"
    "strip (ws @ item) \<noteq> []" "\<not> startswith ''-'' (ws @ item)"
proof -
  obtain c cs where ws: "ws = c # cs" using assms(1) by (cases ws) auto
  with assms(2) have c: "is_space c" by simp
  from assms(3) obtain r where item: "item = CHR ''-'' # r"
    using checklist_pattern_dash by blast
  show "checklist_pattern (ws @ item) = None"
    using is_space_not_dash [OF c] by (simp add: ws checklist_pattern_def)
  show "section_pattern (ws @ item) = None"
    using is_space_not_hash [OF c] by (simp add: ws section_pattern_def)
  show "\<not> startswith ''-'' (ws @ item)"
    using is_space_not_dash [OF c] by (simp add: ws startswith_def)
  show "strip (ws @ item) \<noteq> []"
  proof
    assume "strip (ws @ item) = []"
    then have "list_all is_space (ws @ item)" by (rule strip_empty)
    then have "is_space (CHR ''-'')" by (simp add: item)
    then show False by (simp add: is_space_def)
  qed
qed

lemma cl_step_indented:
  assumes "ws \<noteq> []" "list_all is_space ws" "checklist_pattern item \<noteq> None"
  shows "cl_step i (ws @ item) st = st\<lparr>checklists := save_checklist st, current_checklist := None\<rparr>"
proof (cases "current_checklist st")
  case None
  then show ?thesis
    by (simp add: cl_step_def indented_line_facts [OF assms] save_checklist_def)
next
  case (Some cl)
  then show ?thesis
    by (simp add: cl_step_def indented_line_facts [OF assms])
qed

text \<open>
  Claim C10. A checklist item line indented by one or more whitespace characters is not
  recognized as a checklist item. In every state of the scan, so after every beginning of a
  document, it flushes the open group, if there is one, and leaves no group open. Hence the
  items under a heading that come before and after an indented item form two groups, and
  the indented item is in neither.
\<close>

theorem indented_item_closes_group:
  assumes "ws \<noteq> []" "list_all is_space ws" "NL \<notin> set ws" "item_line item"
    and "section_pattern heading = Some g" "NL \<notin> set heading"
    and "first \<noteq> []" "list_all item_line first" "second \<noteq> []" "list_all item_line second"
  shows "checklist_pattern (ws @ item) = None
         \<and> cl_step i (ws @ item) st =
             st\<lparr>checklists := save_checklist st, current_checklist := None\<rparr>
         \<and> extract_checklists (join_nl (heading # first @ (ws @ item) # second)) =
             [\<lparr>cl_section = strip g, cl_items = map item_text first, cl_line_number = 2\<rparr>,
              \<lparr>cl_section = strip g, cl_items = map item_text second,
               cl_line_number = 3 + int (length first)\<rparr>]"
proof -
  from assms(4) have item: "checklist_pattern item \<noteq> None" and nl: "NL \<notin> set item"
    by (simp_all add: item_line_def)
  note ind = indented_line_facts [OF assms(1,2) item]
  note step = cl_step_indented [OF assms(1,2) item]
  let ?ls = "heading # first @ (ws @ item) # second"
  have "list_all (\<lambda>l. NL \<notin> set l) ?ls"
    using assms(3,6,8,10) nl by (auto simp: item_line_def list_all_iff)
  then have split: "split_nl (join_nl ?ls) = ?ls" by (simp add: split_nl_join_nl)
  let ?st1 = "cl_init\<lparr>checklists := save_checklist cl_init, current_section := strip g,
                current_checklist := None\<rparr>"
  let ?cl1 = "\<lparr>cl_section = strip g, cl_items = map item_text first, cl_line_number = 2\<rparr>"
  let ?cl2 = "\<lparr>cl_section = strip g, cl_items = map item_text second,
               cl_line_number = 3 + int (length first)\<rparr>"
  let ?st2 = "?st1\<lparr>current_checklist := Some ?cl1\<rparr>"
  let ?st3 = "?st2\<lparr>checklists := save_checklist ?st2, current_checklist := None\<rparr>"
  obtain l ls where first: "first = l # ls" using assms(7) by (cases first) auto
  obtain m ms where second: "second = m # ms" using assms(9) by (cases second) auto
  have 2: "cl_loop 2 first ?st1 = ?st2"
    using cl_loop_new_group [of l ls ?st1 2] assms(8) by (simp add: first)
  have 3: "cl_step (2 + int (length first)) (ws @ item) ?st2 = ?st3" by (rule step)
  have 4: "cl_loop (3 + int (length first)) second ?st3 = ?st3\<lparr>current_checklist := Some ?cl2\<rparr>"
    using cl_loop_new_group [of m ms ?st3 "3 + int (length first)"] assms(10)
    by (simp add: second)
  have "cl_loop 2 (first @ (ws @ item) # second) ?st1 = ?st3\<lparr>current_checklist := Some ?cl2\<rparr>"
    using 2 3 4 by (simp add: cl_loop_append [of 2 first] add.commute)
  then have "cl_loop 1 ?ls cl_init = ?st3\<lparr>current_checklist := Some ?cl2\<rparr>"
    by (simp add: cl_step_heading [OF assms(5)])
  then have "extract_checklists (join_nl ?ls) = [?cl1, ?cl2]"
    using assms(7,9) by (simp add: extract_checklists_def split save_checklist_def cl_init_def)
  then show ?thesis using ind(1) step by simp
qed

theorem indented_item_closes_group_witness:
  "[CHR '' '', CHR 0x09] \<noteq> [] \<and> list_all is_space [CHR '' '', CHR 0x09]
   \<and> NL \<notin> set [CHR '' '', CHR 0x09] \<and> item_line ''- [ ] sub''
   \<and> section_pattern ''# Plan'' = Some ''Plan'' \<and> NL \<notin> set ''# Plan''
   \<and> [''- [ ] one''] \<noteq> [] \<and> list_all item_line [''- [ ] one'']
   \<and> [''- [x] two'', ''- [ ] three''] \<noteq> []
   \<and> list_all item_line [''- [x] two'', ''- [ ] three'']
   \<and> checklist_pattern ([CHR '' '', CHR 0x09] @ ''- [ ] sub'') = None
   \<and> extract_checklists
         (join_nl [''# Plan'', ''- [ ] one'', [CHR '' '', CHR 0x09] @ ''- [ ] sub'',
                   ''- [x] two'', ''- [ ] three'']) =
       [\<lparr>cl_section = ''Plan'', cl_items = [''one''], cl_line_number = 2\<rparr>,
        \<lparr>cl_section = ''Plan'', cl_items = [''two'', ''three''], cl_line_number = 4\<rparr>]"
proof -
  have h1: "list_all is_space [CHR '' '', CHR 0x09]" by code_simp
  have h2: "item_line ''- [ ] sub''" by code_simp
  have h3: "section_pattern ''# Plan'' = Some ''Plan''" by code_simp
  have h4: "list_all item_line [''- [ ] one'']" by code_simp
  have h5: "list_all item_line [''- [x] two'', ''- [ ] three'']" by code_simp
  have t: "strip ''Plan'' = ''Plan''" "item_text ''- [ ] one'' = ''one''"
    "item_text ''- [x] two'' = ''two''" "item_text ''- [ ] three'' = ''three''"
    by code_simp+
  show ?thesis
    using indented_item_closes_group
      [of "[CHR '' '', CHR 0x09]" "''- [ ] sub''" "''# Plan''" "''Plan''" "[''- [ ] one'']"
          "[''- [x] two'', ''- [ ] three'']", OF _ h1 _ h2 h3 _ _ h4 _ h5]
      h1 h2 h3 h4 h5
    by (simp add: t)
qed

section \<open>The checklist extractor and code fences\<close>

text \<open>
  Claim C9. The checklist extractor does not know about code fences. In the document below
  the lines 3 to 5 lie inside a fenced code block (the code-block extractor returns them as
  the body of the block opened on line 2). The checklist extractor still takes the checkbox
  line 3 as an item, takes line 4 as a heading, which flushes the group opened by line 3
  and owns the item of line 5. The extraction of second-level headings sees a heading
  inside a fenced block in the same way.
\<close>

theorem extract_checklists_not_fence_aware:
  "extract_code_blocks
     (join_nl [''# A'', ''```'', ''- [ ] one'', ''# B'', ''- [x] two'', ''```'']) =
     Inr [\<lparr>language = '''', code = join_nl [''- [ ] one'', ''# B'', ''- [x] two''],
           line_number = 2\<rparr>]
   \<and> extract_checklists
     (join_nl [''# A'', ''```'', ''- [ ] one'', ''# B'', ''- [x] two'', ''```'']) =
     [\<lparr>cl_section = ''A'', cl_items = [''one''], cl_line_number = 3\<rparr>,
      \<lparr>cl_section = ''B'', cl_items = [''two''], cl_line_number = 5\<rparr>]
   \<and> get_major_sections (join_nl [''```'', ''## Inside'', ''```'']) = {''inside''}"
  by code_simp

section \<open>Properties of the checks\<close>

subsection \<open>Duplicate checklist items\<close>

lemma map_of_counter_add:
  "map_of (counter_add k c) = (map_of c)(k \<mapsto> (case map_of c k of None \<Rightarrow> 1 | Some n \<Rightarrow> n + 1))"
  by (induction c) (auto simp: fun_eq_iff)

lemma keys_counter_add:
  "map fst (counter_add k c) = (if k \<in> fst ` set c then map fst c else map fst c @ [k])"
proof (induction c)
  case Nil
  then show ?case by simp
next
  case (Cons a c)
  obtain k' n where a: "a = (k', n)" by (cases a) auto
  show ?case
  proof (cases "k = k'")
    case True
    then show ?thesis by (simp add: a)
  next
    case False
    then show ?thesis using Cons by (simp add: a)
  qed
qed

lemma map_of_Some_key: "map_of c k = Some v \<Longrightarrow> k \<in> fst ` set c"
  by (metis map_of_eq_None_iff option.distinct(1))

lemma counter_fold:
  "distinct (map fst c) \<Longrightarrow>
   distinct (map fst (foldl (\<lambda>c k. counter_add k c) c xs))
   \<and> map_of (foldl (\<lambda>c k. counter_add k c) c xs) k =
       (if k \<in> fst ` set c \<union> set xs
        then Some ((case map_of c k of None \<Rightarrow> 0 | Some n \<Rightarrow> n) + int (count_list xs k))
        else None)"
proof (induction xs arbitrary: c)
  case Nil
  then show ?case
    by (auto simp: map_of_eq_None_iff split: option.splits)
next
  case (Cons x xs)
  have d: "distinct (map fst (counter_add x c))"
    using Cons.prems by (auto simp: keys_counter_add)
  have "set (map fst (counter_add x c)) = insert x (fst ` set c)"
    by (auto simp: keys_counter_add)
  then have keys: "fst ` set (counter_add x c) = insert x (fst ` set c)" by simp
  have v: "(case map_of (counter_add x c) k of None \<Rightarrow> 0 | Some n \<Rightarrow> n) + int (count_list xs k) =
           (case map_of c k of None \<Rightarrow> 0 | Some n \<Rightarrow> n) + int (count_list (x # xs) k)"
    by (simp add: map_of_counter_add split: option.splits)
  have "map_of (foldl (\<lambda>c k. counter_add k c) (counter_add x c) xs) k =
       (if k \<in> insert x (fst ` set c) \<union> set xs
        then Some ((case map_of c k of None \<Rightarrow> 0 | Some n \<Rightarrow> n) + int (count_list (x # xs) k))
        else None)"
    using Cons.IH [OF d] by (simp only: keys v)
  then show ?case using Cons.IH [OF d] by simp
qed

lemma Counter_entries:
  "(k, n) \<in> set (Counter xs) \<longleftrightarrow> k \<in> set xs \<and> n = int (count_list xs k)"
proof -
  have d: "distinct (map fst (Counter xs))"
    and m: "map_of (Counter xs) k = (if k \<in> set xs then Some (int (count_list xs k)) else None)"
    using counter_fold [of "[]" xs k] by (simp_all add: Counter_def)
  have "(k, n) \<in> set (Counter xs) \<longleftrightarrow> map_of (Counter xs) k = Some n"
    using d by simp
  then show ?thesis using m by auto
qed

lemma distinct_count_list: "distinct xs \<longleftrightarrow> (\<forall>k\<in>set xs. count_list xs k = 1)"
proof (induction xs)
  case Nil
  then show ?case by simp
next
  case (Cons x xs)
  show ?case
  proof (cases "x \<in> set xs")
    case True
    then have "count_list xs x > 0" using count_list_0_iff [of xs x] by simp
    with True show ?thesis by auto
  next
    case False
    then have "count_list xs x = 0" by simp
    with False Cons show ?thesis by auto
  qed
qed

lemma no_repeated_key:
  "filter (\<lambda>(item, count). count > 1) (Counter xs) = [] \<longleftrightarrow> distinct xs"
proof -
  have "filter (\<lambda>(item, count). count > 1) (Counter xs) = []
        \<longleftrightarrow> (\<forall>k n. (k, n) \<in> set (Counter xs) \<longrightarrow> \<not> n > 1)"
    by (auto simp: filter_empty_conv)
  also have "\<dots> \<longleftrightarrow> (\<forall>k\<in>set xs. count_list xs k \<le> 1)"
    by (auto simp: Counter_entries)
  also have "\<dots> \<longleftrightarrow> (\<forall>k\<in>set xs. count_list xs k = 1)"
    by (metis count_list_0_iff le_antisym less_one not_less order_refl)
  finally show ?thesis by (simp add: distinct_count_list)
qed

lemma checklist_duplicates_empty:
  "checklist_duplicates cl = [] \<longleftrightarrow> distinct (map (\<lambda>item. strip (lower item)) (cl_items cl))"
  by (simp add: checklist_duplicates_def no_repeated_key)

lemma duplicates_empty:
  "duplicates cls = [] \<longleftrightarrow>
   list_all (\<lambda>cl. distinct (map (\<lambda>item. strip (lower item)) (cl_items cl))) cls"
  by (simp add: duplicates_def checklist_duplicates_empty list_all_iff)

text \<open>
  Claim C7. The duplicate check passes exactly when, in every extracted group, the
  lower-cased and trimmed item texts are pairwise distinct; it fails as soon as two of them
  are equal. A group with the items \<open>Check input\<close>, \<open>check input\<close> and \<open>Check input\<close>
  followed by a space is reported as one duplicate of count 3, and a document with these three
  items under one heading fails with that report.
\<close>

theorem duplicate_detection:
  "(test_no_duplicate_checklist_items content = Passed) =
     list_all (\<lambda>cl. distinct (map (\<lambda>item. strip (lower item)) (cl_items cl)))
       (extract_checklists content)
   \<and> duplicates
       [\<lparr>cl_section = s, cl_items = [''Check input'', ''check input'', ''Check input ''],
         cl_line_number = n\<rparr>] =
     [\<lparr>dup_section = s, dup_item = ''check input'', dup_count = 3\<rparr>]
   \<and> test_no_duplicate_checklist_items
       (join_nl [''# Q'', ''- [ ] Check input'', ''- [x] check input'', ''- [ ]  Check input  '']) =
     AssertionError [\<lparr>dup_section = ''Q'', dup_item = ''check input'', dup_count = 3\<rparr>]"
proof -
  have a: "(test_no_duplicate_checklist_items content = Passed) =
     list_all (\<lambda>cl. distinct (map (\<lambda>item. strip (lower item)) (cl_items cl)))
       (extract_checklists content)"
    using duplicates_empty [of "extract_checklists content"]
    by (simp add: test_no_duplicate_checklist_items_def Let_def)
  have l: "strip (lower ''Check input'') = ''check input''"
    "strip (lower ''check input'') = ''check input''"
    "strip (lower ''Check input '') = ''check input''"
    by code_simp+
  have b: "duplicates
       [\<lparr>cl_section = s, cl_items = [''Check input'', ''check input'', ''Check input ''],
         cl_line_number = n\<rparr>] =
     [\<lparr>dup_section = s, dup_item = ''check input'', dup_count = 3\<rparr>]"
    by (simp add: duplicates_def checklist_duplicates_def Counter_def l)
  have c: "test_no_duplicate_checklist_items
       (join_nl [''# Q'', ''- [ ] Check input'', ''- [x] check input'', ''- [ ]  Check input  '']) =
     AssertionError [\<lparr>dup_section = ''Q'', dup_item = ''check input'', dup_count = 3\<rparr>]"
    by code_simp
  show ?thesis using a b c by simp
qed

subsection \<open>Link syntax\<close>

lemma link_match_pair:
  assumes "CHR '']'' \<notin> set link_text" "CHR '')'' \<notin> set link_url"
  shows "link_match (''['' @ link_text @ '']('' @ link_url @ '')'' @ post) =
           Some (link_text, link_url, post)"
proof -
  have t: "dropWhile (\<lambda>d. d \<noteq> CHR '']'') (link_text @ '']('' @ link_url @ '')'' @ post) =
             '']('' @ link_url @ '')'' @ post"
    "takeWhile (\<lambda>d. d \<noteq> CHR '']'') (link_text @ '']('' @ link_url @ '')'' @ post) = link_text"
    using assms(1) by (simp_all add: dropWhile_append takeWhile_append)
  have u: "dropWhile (\<lambda>d. d \<noteq> CHR '')'') (link_url @ '')'' @ post) = '')'' @ post"
    "takeWhile (\<lambda>d. d \<noteq> CHR '')'') (link_url @ '')'' @ post) = link_url"
    using assms(2) by (simp_all add: dropWhile_append takeWhile_append)
  show ?thesis
    using t u by (simp add: link_match_def)
qed

lemma link_match_other: "c \<noteq> CHR ''['' \<Longrightarrow> link_match (c # s) = None"
  by (simp add: link_match_def)

lemma link_matches_skip:
  "CHR ''['' \<notin> set pre \<Longrightarrow> s \<noteq> [] \<Longrightarrow> link_matches (pre @ s) = link_matches s"
proof (induction pre)
  case Nil
  then show ?case by simp
next
  case (Cons c pre)
  then have "c \<noteq> CHR ''[''" by auto
  then have "link_matches ((c # pre) @ s) = link_matches (pre @ s)"
    by (subst link_matches.simps) (simp add: link_match_other)
  then show ?case using Cons by simp
qed

lemma link_matches_pair:
  assumes "CHR ''['' \<notin> set pre" "CHR '']'' \<notin> set link_text" "CHR '')'' \<notin> set link_url"
  shows "link_matches (pre @ ''['' @ link_text @ '']('' @ link_url @ '')'' @ post) =
           (link_text, link_url) # link_matches post"
proof -
  let ?s = "''['' @ link_text @ '']('' @ link_url @ '')'' @ post"
  have "link_matches (pre @ ?s) = link_matches ?s"
    using assms(1) by (rule link_matches_skip) simp
  also have "\<dots> = (link_text, link_url) # link_matches post"
    by (subst link_matches.simps) (simp add: link_match_pair [OF assms(2,3), simplified])
  finally show ?thesis .
qed

lemma link_issues_empty:
  "link_issues file (t, u) = [] \<longleftrightarrow> strip t \<noteq> [] \<and> strip u = u"
  by (simp add: link_issues_def)

lemma file_issues_empty:
  "concat (map (link_issues name) ms) = [] \<longleftrightarrow>
   list_all (\<lambda>(t, u). strip t \<noteq> [] \<and> strip u = u) ms"
  by (induction ms) (auto simp: link_issues_empty)

lemma malformed_links_empty:
  "malformed_links md_files = [] \<longleftrightarrow>
   list_all (\<lambda>(name, content).
     list_all (\<lambda>(t, u). strip t \<noteq> [] \<and> strip u = u) (link_matches content)) md_files"
proof (induction md_files)
  case Nil
  then show ?case by (simp add: malformed_links_def)
next
  case (Cons f fs)
  obtain name content where f: "f = (name, content)" by (cases f) auto
  have "malformed_links (f # fs) =
          concat (map (link_issues name) (link_matches content)) @ malformed_links fs"
    by (simp add: malformed_links_def f)
  then have "malformed_links (f # fs) = [] \<longleftrightarrow>
      list_all (\<lambda>(t, u). strip t \<noteq> [] \<and> strip u = u) (link_matches content)
      \<and> malformed_links fs = []"
    by (simp only: append_is_Nil_conv file_issues_empty)
  then show ?case using Cons.IH by (simp add: f)
qed

text \<open>
  Claim C8, as amended. A text without an opening bracket, followed by \<open>[text](url)\<close> where
  the text has no closing bracket and the URL no closing parenthesis, has this pair as its
  first match. The check passes exactly when every matched pair of every file has a link text
  that is not blank and a URL without leading or trailing whitespace; so it fails for every
  document with such a pair whose text is empty or blank, or whose URL starts or ends with
  whitespace.
\<close>

theorem link_format_check:
  assumes "CHR ''['' \<notin> set pre" "CHR '']'' \<notin> set link_text" "CHR '')'' \<notin> set link_url"
  shows "link_matches (pre @ ''['' @ link_text @ '']('' @ link_url @ '')'' @ post) =
           (link_text, link_url) # link_matches post
         \<and> (test_link_format_valid md_files = Passed) =
             list_all (\<lambda>(name, content).
               list_all (\<lambda>(t, u). strip t \<noteq> [] \<and> strip u = u) (link_matches content)) md_files
         \<and> (strip link_text = [] \<or> strip link_url \<noteq> link_url \<longrightarrow>
              test_link_format_valid
                (files @ (name, pre @ ''['' @ link_text @ '']('' @ link_url @ '')'' @ post) # files')
              \<noteq> Passed)"
proof -
  have p: "\<And>fs. (test_link_format_valid fs = Passed) =
             list_all (\<lambda>(name, content).
               list_all (\<lambda>(t, u). strip t \<noteq> [] \<and> strip u = u) (link_matches content)) fs"
    using malformed_links_empty by (simp add: test_link_format_valid_def Let_def)
  note m = link_matches_pair [OF assms, of post]
  show ?thesis
    using m by (simp add: p del: append.simps)
qed

theorem link_format_check_witness:
  "CHR ''['' \<notin> set ''See '' \<and> CHR '']'' \<notin> set '' '' \<and> CHR '')'' \<notin> set '' a.md''
   \<and> link_matches (''See '' @ ''['' @ '' '' @ '']('' @ '' a.md'' @ '')'' @ ''.'') =
       [('' '', '' a.md'')]
   \<and> test_link_format_valid [(''f.md'', ''See [ ]( a.md).'')] \<noteq> Passed"
proof -
  have "link_matches ''.'' = []" by code_simp
  then show ?thesis
    using link_format_check [of "''See ''" "'' ''" "'' a.md''" "''.''" "[]" "[]" "''f.md''" "[]"]
    by (simp add: strip_def is_space_def)
qed

text \<open>
  Claim C8 as stated fails: the URL of the only link of this document has whitespace inside,
  and the check passes.
\<close>

theorem internal_whitespace_in_url_passes:
  "link_matches ''[docs](my page.html)'' = [(''docs'', ''my page.html'')]
   \<and> test_link_format_valid [(''README.md'', ''[docs](my page.html)'')] = Passed"
  by code_simp

subsection \<open>Equality of the section sets\<close>




















subsection \<open>Identity of the main document and its distribution copy\<close>

text \<open>
  Claim C1. The identity check should fail whenever the two documents differ in a character,
  a trailing newline added to one copy included. It does not: the files are read in text
  mode, so a main document \<open>a\r\nb\<close> and a copy \<open>a\nb\<close> are read as the same text, and
  both the identity test and the line-count test pass, whatever \<open>sha256\<close> computes. In the
  same way a document \<open>a\r\<close> and its copy with one newline added, \<open>a\r\n\<close>, pass both
  tests.
\<close>

theorem identity_check_ignores_line_endings:
  "read_text [0x61, 0x0D, 0x0A, 0x62] = Inr [0x61, 0x0A, 0x62]
   \<and> read_text [0x61, 0x0A, 0x62] = Inr [0x61, 0x0A, 0x62]
   \<and> test_main_and_cskill_identical sha256 [0x61, 0x0D, 0x0A, 0x62] [0x61, 0x0A, 0x62] =
       Inr Passed
   \<and> test_main_and_cskill_line_counts_match [0x61, 0x0D, 0x0A, 0x62] [0x61, 0x0A, 0x62] =
       Inr Passed
   \<and> test_main_and_cskill_identical sha256 [0x61, 0x0D] [0x61, 0x0D, 0x0A] = Inr Passed
   \<and> test_main_and_cskill_line_counts_match [0x61, 0x0D] [0x61, 0x0D, 0x0A] = Inr Passed"
  by (simp add: test_main_and_cskill_identical_def test_main_and_cskill_line_counts_match_def
      read_text_def prepend_def encode_code_point_def)

end
